theory Spec2Isabelle
  imports Main "HOL-Library.Word" "HOL-Library.Signed_Division"
begin

unbundle bit_operations_syntax

section \<open>Data model of \<open>constructions/common/random.go\<close>\<close>

text \<open>
  Bytes are 8-bit words, Go's \<open>int\<close> is the 64-bit two's complement integer of the
  64-bit platforms, a cipher block is a 128-bit word read big-endian from its 16 bytes.
\<close>

type_synonym byte = "8 word"
type_synonym goint = "64 word"
type_synonym block = "128 word"

text \<open>
  The block cipher is an external collaborator (\<open>crypto/aes\<close>): the development takes
  its block function as a parameter, key bytes and a block to a block.
\<close>

type_synonym cipher = "byte list \<Rightarrow> block \<Rightarrow> block"

text \<open>Every way the Go code of this file can panic.\<close>

datatype panic =
    NilDereference
  | InputNotFullBlock
  | OutputNotFullBlock
  | IndexOutOfRange
  | IVLength
  | MakeSliceLen
  | DivideByZero
  | ZeroVariablesNonZeroSum

datatype cipher_error = KeySizeError nat

text \<open>
  The generator instance. \<open>Name\<close> is kept as the bytes of the Go string; the two caches
  are keyed by the 16-byte array built from the label.
\<close>

record ('s, 'm) RandomSource =
  Name :: "byte list"
  Seed :: "byte list"
  encodingCache :: "byte list \<rightharpoonup> 's"
  matrixCache :: "byte list \<rightharpoonup> 'm"

definition NewRandomSource :: "byte list \<Rightarrow> byte list \<Rightarrow> ('s, 'm) RandomSource" where
  "NewRandomSource name seed =
     \<lparr>Name = name, Seed = seed, encodingCache = Map.empty, matrixCache = Map.empty\<rparr>"

section \<open>The cipher interface as the code uses it\<close>

definition be_word :: "byte list \<Rightarrow> block" where
  "be_word bs = word_rcat bs"

definition be_bytes :: "block \<Rightarrow> byte list" where
  "be_bytes w = map (\<lambda>i. ucast (drop_bit (8 * i) w)) (rev [0..<16])"

text \<open>
  \<open>aes.NewCipher\<close>: a key of 16, 24 or 32 bytes gives a cipher, any other length the
  error \<open>KeySizeError\<close>.
\<close>

definition NewCipher :: "byte list \<Rightarrow> cipher_error + byte list" where
  "NewCipher key =
     (if length key = 16 \<or> length key = 24 \<or> length key = 32 then Inr key
      else Inl (KeySizeError (length key)))"

text \<open>
  \<open>c, _ := aes.NewCipher(key)\<close>: the error is dropped, and \<open>c\<close> is the nil interface
  when there was one.
\<close>

definition NewCipher_drop_err :: "byte list \<Rightarrow> byte list option" where
  "NewCipher_drop_err key = (case NewCipher key of Inl e \<Rightarrow> None | Inr c \<Rightarrow> Some c)"

text \<open>
  \<open>c.Encrypt(dst, src)\<close>: a call on the nil interface panics; the cipher panics unless
  both slices hold a full block; it encrypts the first 16 bytes of \<open>src\<close> into the first
  16 bytes of \<open>dst\<close>.
\<close>

definition Encrypt :: "cipher \<Rightarrow> byte list option \<Rightarrow> byte list \<Rightarrow> byte list \<Rightarrow> panic + byte list" where
  "Encrypt E c dst src =
     (case c of
        None \<Rightarrow> Inl NilDereference
      | Some key \<Rightarrow>
          if length src < 16 then Inl InputNotFullBlock
          else if length dst < 16 then Inl OutputNotFullBlock
          else Inr (be_bytes (E key (be_word (take 16 src))) @ drop 16 dst))"

section \<open>Subkey derivation\<close>

text \<open>
  \<open>for i, c := range []byte(rs.Name) { subKey[i] ^= c }\<close>, an index past the slice
  panics.
\<close>

fun xor_name :: "nat \<Rightarrow> byte list \<Rightarrow> byte list \<Rightarrow> panic + byte list" where
  "xor_name i [] subKey = Inr subKey"
| "xor_name i (c # cs) subKey =
     (if i < length subKey then xor_name (Suc i) cs (subKey[i := (subKey ! i) XOR c])
      else Inl IndexOutOfRange)"

definition subKey :: "cipher \<Rightarrow> ('s, 'm) RandomSource \<Rightarrow> byte list \<Rightarrow> panic + byte list" where
  "subKey E rs label =
     (let subKey0 = replicate 16 0;
          c = NewCipher_drop_err (Seed rs)
      in case Encrypt E c subKey0 label of
           Inl p \<Rightarrow> Inl p
         | Inr subKey1 \<Rightarrow>
             (case xor_name 0 (Name rs) subKey1 of
                Inl p \<Rightarrow> Inl p
              | Inr subKey2 \<Rightarrow> Encrypt E c subKey2 subKey2))"

section \<open>The keystream\<close>

text \<open>
  Counter mode: block \<open>i\<close> of the keystream is the encryption of the initial counter
  block plus \<open>i\<close>, the counter being the big-endian number held by the 16 bytes.
\<close>

definition ctr_keystream :: "cipher \<Rightarrow> byte list \<Rightarrow> block \<Rightarrow> nat \<Rightarrow> byte" where
  "ctr_keystream E key iv p = be_bytes (E key (iv + of_nat (p div 16))) ! (p mod 16)"

text \<open>
  \<open>cipher.NewCTR(block, iv)\<close> asks the block for its size (a nil block panics) and
  panics unless the IV has the length of a block.
\<close>

definition NewCTR :: "cipher \<Rightarrow> byte list option \<Rightarrow> byte list \<Rightarrow> panic + (nat \<Rightarrow> byte)" where
  "NewCTR E blk iv =
     (case blk of
        None \<Rightarrow> Inl NilDereference
      | Some key \<Rightarrow>
          if length iv \<noteq> 16 then Inl IVLength
          else Inr (ctr_keystream E key (be_word iv)))"

definition Stream :: "cipher \<Rightarrow> ('s, 'm) RandomSource \<Rightarrow> byte list \<Rightarrow> panic + (nat \<Rightarrow> byte)" where
  "Stream E rs label =
     (case subKey E rs label of
        Inl p \<Rightarrow> Inl p
      | Inr sk \<Rightarrow> NewCTR E (NewCipher_drop_err sk) label)"

text \<open>
  The reader returned by \<open>Stream\<close> is a \<open>cipher.StreamReader\<close> over \<open>devNull\<close>: a read
  of \<open>n\<close> bytes at position \<open>pos\<close> fills the buffer with zeros and XORs the next \<open>n\<close>
  keystream bytes into it.
\<close>

definition devNull_Read :: "nat \<Rightarrow> byte list" where
  "devNull_Read n = replicate n 0"

definition Read :: "(nat \<Rightarrow> byte) \<Rightarrow> nat \<Rightarrow> nat \<Rightarrow> byte list" where
  "Read ks pos n = map (\<lambda>(z, k). z XOR k) (zip (devNull_Read n) (map ks [pos..<pos + n]))"

section \<open>Cached generators\<close>

text \<open>\<open>key := [16]byte{}; copy(key[:], label)\<close>\<close>

definition copy16 :: "byte list \<Rightarrow> byte list" where
  "copy16 label = take 16 label @ replicate (16 - length label) 0"

text \<open>
  \<open>encoding.GenerateShuffle\<close> and \<open>matrix.GenerateRandom\<close> live in other packages:
  they are parameters, functions of the keystream they read (and of the size) that may
  return, panic, or not return (\<open>None\<close>).
\<close>

type_synonym 's shuffle_gen = "(nat \<Rightarrow> byte) \<Rightarrow> (panic + 's) option"
type_synonym 'm matrix_gen = "(nat \<Rightarrow> byte) \<Rightarrow> goint \<Rightarrow> (panic + 'm) option"

definition Shuffle ::
  "cipher \<Rightarrow> 's shuffle_gen \<Rightarrow> ('s, 'm) RandomSource \<Rightarrow> byte list
     \<Rightarrow> (panic + 's \<times> ('s, 'm) RandomSource) option" where
  "Shuffle E GenerateShuffle rs label =
     (let key = copy16 label in
      case encodingCache rs key of
        Some cached \<Rightarrow> Some (Inr (cached, rs))
      | None \<Rightarrow>
          (case Stream E rs label of
             Inl p \<Rightarrow> Some (Inl p)
           | Inr ks \<Rightarrow>
               (case GenerateShuffle ks of
                  None \<Rightarrow> None
                | Some (Inl p) \<Rightarrow> Some (Inl p)
                | Some (Inr sh) \<Rightarrow>
                    Some (Inr (sh, rs\<lparr>encodingCache := (encodingCache rs)(key \<mapsto> sh)\<rparr>)))))"

definition Matrix ::
  "cipher \<Rightarrow> 'm matrix_gen \<Rightarrow> ('s, 'm) RandomSource \<Rightarrow> byte list \<Rightarrow> goint
     \<Rightarrow> (panic + 'm \<times> ('s, 'm) RandomSource) option" where
  "Matrix E GenerateRandom rs label msize =
     (let key = copy16 label in
      case matrixCache rs key of
        Some cached \<Rightarrow> Some (Inr (cached, rs))
      | None \<Rightarrow>
          (case Stream E rs label of
             Inl p \<Rightarrow> Some (Inl p)
           | Inr ks \<Rightarrow>
               (case GenerateRandom ks msize of
                  None \<Rightarrow> None
                | Some (Inl p) \<Rightarrow> Some (Inl p)
                | Some (Inr m) \<Rightarrow>
                    Some (Inr (m, rs\<lparr>matrixCache := (matrixCache rs)(key \<mapsto> m)\<rparr>)))))"

text \<open>
  The generator is changed only by a call of \<open>Shuffle\<close> or \<open>Matrix\<close> that returns:
  \<open>later rs rs'\<close> says that \<open>rs'\<close> is the generator \<open>rs\<close> after any number of such
  calls.
\<close>

inductive later ::
  "cipher \<Rightarrow> 's shuffle_gen \<Rightarrow> 'm matrix_gen
     \<Rightarrow> ('s, 'm) RandomSource \<Rightarrow> ('s, 'm) RandomSource \<Rightarrow> bool"
  for E :: cipher and GenerateShuffle :: "'s shuffle_gen" and GenerateRandom :: "'m matrix_gen"
  where
    later_refl: "later E GenerateShuffle GenerateRandom rs rs"
  | later_Shuffle:
      "later E GenerateShuffle GenerateRandom rs rs1 \<Longrightarrow>
       Shuffle E GenerateShuffle rs1 label = Some (Inr (sh, rs2)) \<Longrightarrow>
       later E GenerateShuffle GenerateRandom rs rs2"
  | later_Matrix:
      "later E GenerateShuffle GenerateRandom rs rs1 \<Longrightarrow>
       Matrix E GenerateRandom rs1 label msize = Some (Inr (m, rs2)) \<Longrightarrow>
       later E GenerateShuffle GenerateRandom rs rs2"

section \<open>The sum-constrained sampler\<close>

text \<open>
  Go's \<open>/\<close> and \<open>%\<close> on \<open>int\<close> truncate towards zero and wrap; both panic on a zero
  divisor, which the callers below check first.
\<close>

definition go_quo :: "goint \<Rightarrow> goint \<Rightarrow> goint" where
  "go_quo a b = word_of_int (sint a sdiv sint b)"

definition go_rem :: "goint \<Rightarrow> goint \<Rightarrow> goint" where
  "go_rem a b = word_of_int (sint a smod sint b)"

text \<open>
  \<open>make([]T, n)\<close> panics when \<open>n\<close> is negative or the slice would exceed what the
  64-bit runtime can address (\<open>2 ^ 48\<close> bytes); the model lets every other allocation
  succeed.
\<close>

definition maxAlloc :: int where
  "maxAlloc = 2 ^ 48"

definition make_len :: "int \<Rightarrow> goint \<Rightarrow> panic + nat" where
  "make_len elem_size n =
     (if sint n < 0 \<or> maxAlloc < elem_size * sint n then Inl MakeSliceLen
      else Inr (nat (sint n)))"

text \<open>The second loop of \<open>guess\<close>, one position.\<close>

definition scale1 :: "goint \<Rightarrow> goint \<Rightarrow> goint \<Rightarrow> panic + goint" where
  "scale1 tsum candSum x =
     (let p = x * tsum in
      if candSum = 0 then Inl DivideByZero
      else
        let r = go_rem p candSum;
            q = go_quo p candSum
        in Inr (if word_sle (go_quo candSum 2) r then q + 1 else q))"

fun scale :: "goint \<Rightarrow> goint \<Rightarrow> goint list \<Rightarrow> panic + goint list" where
  "scale tsum candSum [] = Inr []"
| "scale tsum candSum (x # xs) =
     (case scale1 tsum candSum x of
        Inl p \<Rightarrow> Inl p
      | Inr y \<Rightarrow>
          (case scale tsum candSum xs of
             Inl p \<Rightarrow> Inl p
           | Inr ys \<Rightarrow> Inr (y # ys)))"

text \<open>
  \<open>guess\<close>: read \<open>length\<close> bytes, widen them, add them up, scale each position. The
  keystream position moves on by \<open>length\<close>.
\<close>

definition guess :: "(nat \<Rightarrow> byte) \<Rightarrow> nat \<Rightarrow> nat \<Rightarrow> goint \<Rightarrow> panic + goint list" where
  "guess ks pos len tsum =
     (let buff = Read ks pos len;
          out = map ucast buff;
          candSum = foldl (+) 0 out
      in scale tsum candSum out)"

text \<open>
  \<open>candSum := 0; for candSum != sum { candSum = 0; guess(); for _, x := range out { candSum += x } }\<close>.
  The loop has no bound: \<open>None\<close> is a run that never leaves it.
\<close>

partial_function (option) dirichlet_loop ::
  "(nat \<Rightarrow> byte) \<Rightarrow> nat \<Rightarrow> goint \<Rightarrow> nat \<Rightarrow> goint list \<Rightarrow> goint \<Rightarrow> (panic + goint list) option" where
  "dirichlet_loop ks len tsum pos out candSum =
     (if candSum \<noteq> tsum then
        (case guess ks pos len tsum of
           Inl p \<Rightarrow> Some (Inl p)
         | Inr out' \<Rightarrow> dirichlet_loop ks len tsum (pos + len) out' (foldl (+) 0 out'))
      else Some (Inr out))"

definition Dirichlet ::
  "cipher \<Rightarrow> ('s, 'm) RandomSource \<Rightarrow> byte list \<Rightarrow> goint \<Rightarrow> goint \<Rightarrow> (panic + goint list) option" where
  "Dirichlet E rs label len tsum =
     (if len = 0 \<and> tsum \<noteq> 0 then Some (Inl ZeroVariablesNonZeroSum)
      else
        case make_len 8 len of
          Inl p \<Rightarrow> Some (Inl p)
        | Inr n \<Rightarrow>
            (case Stream E rs label of
               Inl p \<Rightarrow> Some (Inl p)
             | Inr ks \<Rightarrow> dirichlet_loop ks n tsum 0 (replicate n 0) 0))"

section \<open>The monotone generator\<close>



declare dirichlet_loop.simps [code]



section \<open>Auxiliary notions for the proofs\<close>

text \<open>
  Closed forms of what the loops above compute, used to state the lemmas: the widened
  weights of one draw, the rounded share of one weight, its value on the integers, the
  seed lengths the cipher accepts, and what the sampler's loop guarantees on exit.
\<close>

definition weights :: "(nat \<Rightarrow> byte) \<Rightarrow> nat \<Rightarrow> nat \<Rightarrow> goint list" where
  "weights ks pos n = map (\<lambda>i. ucast (ks i)) [pos..<pos + n]"

definition rounded :: "goint \<Rightarrow> goint \<Rightarrow> goint \<Rightarrow> goint" where
  "rounded tsum c x =
     (if go_quo c 2 \<le>s go_rem (x * tsum) c then go_quo (x * tsum) c + 1
      else go_quo (x * tsum) c)"


definition valid_seed :: "('s, 'm) RandomSource \<Rightarrow> bool" where
  "valid_seed rs = (length (Seed rs) = 16 \<or> length (Seed rs) = 24 \<or> length (Seed rs) = 32)"

definition loop_post :: "(nat \<Rightarrow> byte) \<Rightarrow> nat \<Rightarrow> goint \<Rightarrow> nat \<Rightarrow> goint list \<Rightarrow> goint \<Rightarrow> panic + goint list \<Rightarrow> bool" where
  "loop_post ks n tsum pos out c y =
     (case y of
        Inl p \<Rightarrow> \<exists>pos'. guess ks pos' n tsum = Inl p
      | Inr res \<Rightarrow> (c = tsum \<and> res = out) \<or>
          (\<exists>pos'. guess ks pos' n tsum = Inr res \<and> sum_list res = tsum))"

text \<open>
  A keystream on which every draw is rejected, and the property of a result of the loop
  that rules such a keystream out.
\<close>

definition always_rejects :: "(nat \<Rightarrow> byte) \<Rightarrow> nat \<Rightarrow> goint \<Rightarrow> goint \<Rightarrow> bool" where
  "always_rejects ks n tsum c \<longleftrightarrow>
     c \<noteq> tsum \<and> (\<forall>pos. \<exists>out. guess ks pos n tsum = Inr out \<and> foldl (+) 0 out \<noteq> tsum)"

definition loop_stuck ::
  "(nat \<Rightarrow> byte) \<Rightarrow> nat \<Rightarrow> goint \<Rightarrow> nat \<Rightarrow> goint list \<Rightarrow> goint \<Rightarrow> panic + goint list \<Rightarrow> bool" where
  "loop_stuck ks n tsum pos out c y \<longleftrightarrow> \<not> always_rejects ks n tsum c"

section \<open>Sample collaborators for concrete runs\<close>

text \<open>
  Concrete stand-ins for the external parts, used where a statement is evaluated on an
  input: the identity and the constant zero as block functions, a shuffle generator and a
  matrix generator that return the first bytes they read, a 16-byte label, and generator
  instances with the name \<open>test\<close> or a name of 16 or 17 bytes and seeds of 16, 24 and
  5 bytes.
\<close>

definition id_cipher :: cipher where
  "id_cipher key b = b"

definition zero_cipher :: cipher where
  "zero_cipher key b = 0"

definition first16_gen :: "byte list shuffle_gen" where
  "first16_gen ks = Some (Inr (map ks [0..<16]))"

definition firstn_gen :: "byte list matrix_gen" where
  "firstn_gen ks n = Some (Inr (map ks [0..<nat (sint n)]))"

definition pi_label :: "byte list" where
  "pi_label = [3, 1, 4, 1, 5, 9, 2, 6, 5, 3, 5, 8, 9, 7, 9, 3]"

definition test_rs :: "(byte list, byte list) RandomSource" where
  "test_rs = NewRandomSource [116, 101, 115, 116] (replicate 16 0)"

definition seed24_rs :: "(byte list, byte list) RandomSource" where
  "seed24_rs = NewRandomSource [116, 101, 115, 116] (replicate 24 0)"

definition seed5_rs :: "(byte list, byte list) RandomSource" where
  "seed5_rs = NewRandomSource [116, 101, 115, 116] [1, 2, 3, 4, 5]"

definition long_name_rs :: "(byte list, byte list) RandomSource" where
  "long_name_rs = NewRandomSource (replicate 17 1) (replicate 16 0)"

definition name16_rs :: "(byte list, byte list) RandomSource" where
  "name16_rs = NewRandomSource (replicate 16 1) (replicate 16 0)"


definition zero_label :: "byte list" where
  "zero_label = replicate 16 0"

text \<open>A block function whose every block is sixteen bytes \<open>2\<close>.\<close>

definition two_cipher :: cipher where
  "two_cipher key b = be_word (replicate 16 2)"

section \<open>Lemmas about the model\<close>

lemma length_be_bytes: "length (be_bytes w) = 16"
  by (simp add: be_bytes_def)

lemma Read_conv: "Read ks pos n = map ks [pos..<pos + n]"
  by (rule nth_equalityI) (simp_all add: Read_def devNull_Read_def)

lemma foldl_add_conv: "foldl (+) (a::goint) xs = a + sum_list xs"
  by (induction xs arbitrary: a) (simp_all add: add.assoc)

lemma scale1_conv:
  "scale1 tsum c x = (if c = 0 then Inl DivideByZero else Inr (rounded tsum c x))"
  by (simp add: scale1_def rounded_def Let_def)

lemma scale_conv:
  "scale tsum c xs =
     (if c = 0 \<and> xs \<noteq> [] then Inl DivideByZero else Inr (map (rounded tsum c) xs))"
  by (induction xs) (simp_all add: scale1_conv)

lemma guess_conv:
  "guess ks pos n tsum =
     (if sum_list (weights ks pos n) = 0 \<and> n \<noteq> 0 then Inl DivideByZero
      else Inr (map (rounded tsum (sum_list (weights ks pos n))) (weights ks pos n)))"
  by (simp add: guess_def Read_conv scale_conv foldl_add_conv weights_def Let_def o_def)

lemma dirichlet_loop_post:
  "dirichlet_loop ks n tsum pos out c = Some y \<Longrightarrow> loop_post ks n tsum pos out c y"
proof (erule dirichlet_loop.raw_induct[rotated], goal_cases)
  case (1 loop ks n tsum pos out c y)
  show ?case
  proof (cases "c = tsum")
    case True
    with 1(2) show ?thesis by (auto simp: loop_post_def)
  next
    case False
    show ?thesis
    proof (cases "guess ks pos n tsum")
      case (Inl q)
      with False 1(2) show ?thesis by (auto simp: loop_post_def)
    next
      case (Inr out')
      with False 1(2) have "loop ks n tsum (pos + n) out' (foldl (+) 0 out') = Some y"
        by simp
      from 1(1)[OF this] Inr show ?thesis
        by (auto simp: loop_post_def foldl_add_conv split: sum.splits)
    qed
  qed
qed



lemma word_sum_list_sint:
  "(sum_list xs :: goint) = word_of_int (\<Sum>x\<leftarrow>xs. sint x)"
  by (induction xs) simp_all

lemma sint_word_of_int_64:
  assumes "- (2 ^ 63) \<le> k" "k < 2 ^ 63"
  shows "sint (word_of_int k :: goint) = k"
proof -
  have "sint (word_of_int k :: goint) = signed_take_bit 63 k"
    by (simp add: sint_sbintrunc')
  also have "\<dots> = k"
    by (rule signed_take_bit_int_eq_self) (use assms in simp_all)
  finally show ?thesis .
qed

lemma sint_sum_list:
  assumes "- (2 ^ 63) \<le> (\<Sum>x\<leftarrow>xs. sint x)" "(\<Sum>x\<leftarrow>xs. sint x) < 2 ^ 63"
  shows "sint (sum_list xs :: goint) = (\<Sum>x\<leftarrow>xs. sint x)"
  unfolding word_sum_list_sint [of xs] by (rule sint_word_of_int_64 [OF assms])


lemma sint_ucast_byte:
  fixes b :: byte
  shows "sint (ucast b :: goint) = uint b"
proof -
  have "uint b < 2 ^ 8" using uint_lt2p [of b] by simp
  then have "uint b < 2 ^ 63" by simp
  moreover have "- (2 ^ 63) \<le> uint b"
  proof -
    have "- (2 ^ 63) \<le> (0::int)" by simp
    also have "0 \<le> uint b" by simp
    finally show ?thesis .
  qed
  moreover have "(ucast b :: goint) = word_of_int (uint b)" by simp
  ultimately show ?thesis by (simp only: sint_word_of_int_64)
qed

lemma weights_sint:
  assumes "x \<in> set (weights ks pos n)"
  shows "0 \<le> sint x" and "sint x \<le> 255"
proof -
  from assms obtain b :: byte where x: "x = ucast b" by (auto simp: weights_def)
  have "uint b < 2 ^ 8" using uint_lt2p [of b] by simp
  then show "0 \<le> sint x" and "sint x \<le> 255"
    by (simp_all add: x sint_ucast_byte)
qed

lemma length_weights: "length (weights ks pos n) = n"
  by (simp add: weights_def)

lemma sum_list_bounded:
  fixes xs :: "int list"
  assumes "\<forall>x\<in>set xs. 0 \<le> x \<and> x \<le> B"
  shows "0 \<le> sum_list xs" and "sum_list xs \<le> B * int (length xs)"
  using assms by (induction xs) (auto simp: algebra_simps)


lemma sint_sum_weights:
  assumes "int n \<le> 2 ^ 45"
  shows "sint (sum_list (weights ks pos n)) = (\<Sum>x\<leftarrow>weights ks pos n. sint x)"
proof -
  let ?ws = "map sint (weights ks pos n)"
  have b: "\<forall>w\<in>set ?ws. 0 \<le> w \<and> w \<le> 255"
    using weights_sint [of _ ks pos n] by auto
  have "sum_list ?ws \<le> 255 * int (length ?ws)"
    by (rule sum_list_bounded(2) [OF b])
  also have "\<dots> \<le> 255 * 2 ^ 45" using assms by (simp add: length_weights)
  finally have "sum_list ?ws < 2 ^ 63" by simp
  moreover have "0 \<le> sum_list ?ws" by (rule sum_list_bounded(1) [OF b])
  ultimately show ?thesis by (intro sint_sum_list) simp_all
qed


lemma xor_name_Inr:
  assumes "i + length cs \<le> length sk"
  shows "\<exists>res. xor_name i cs sk = Inr res \<and> length res = length sk \<and>
           (\<forall>j<length sk. res ! j =
              (if i \<le> j \<and> j < i + length cs then sk ! j XOR cs ! (j - i) else sk ! j))"
  using assms
proof (induction cs arbitrary: i sk)
  case Nil
  then show ?case by auto
next
  case (Cons c cs)
  let ?sk = "sk[i := sk ! i XOR c]"
  from Cons.prems have i: "i < length sk" and le: "Suc i + length cs \<le> length ?sk"
    by simp_all
  from Cons.IH [OF le] obtain res where
    res: "xor_name (Suc i) cs ?sk = Inr res" "length res = length ?sk"
      "\<forall>j<length ?sk. res ! j =
         (if Suc i \<le> j \<and> j < Suc i + length cs then ?sk ! j XOR cs ! (j - Suc i) else ?sk ! j)"
    by blast
  have "res ! j = (if i \<le> j \<and> j < i + length (c # cs) then sk ! j XOR (c # cs) ! (j - i) else sk ! j)"
    if "j < length sk" for j
  proof (cases "j = i")
    case True
    with res(3) i show ?thesis by simp
  next
    case False
    with res(3) that show ?thesis
      by (auto simp: nth_Cons' Suc_diff_Suc)
  qed
  with res(1,2) i show ?case by simp
qed

lemma xor_name_Inl:
  assumes "i \<le> length sk" "length sk < i + length cs"
  shows "xor_name i cs sk = Inl IndexOutOfRange"
  using assms
proof (induction cs arbitrary: i sk)
  case Nil
  then show ?case by simp
next
  case (Cons c cs)
  show ?case
  proof (cases "i < length sk")
    case True
    with Cons.prems have "xor_name (Suc i) cs (sk[i := sk ! i XOR c]) = Inl IndexOutOfRange"
      by (intro Cons.IH) simp_all
    with True show ?thesis by simp
  next
    case False
    then show ?thesis by simp
  qed
qed

lemma NewCipher_drop_err_conv:
  "NewCipher_drop_err key =
     (if length key = 16 \<or> length key = 24 \<or> length key = 32 then Some key else None)"
  by (simp add: NewCipher_drop_err_def NewCipher_def)

lemma subKey_bad_seed:
  "\<not> valid_seed rs \<Longrightarrow> subKey E rs label = Inl NilDereference"
  by (simp add: subKey_def Encrypt_def NewCipher_drop_err_conv valid_seed_def)

lemma subKey_short_label:
  "valid_seed rs \<Longrightarrow> length label < 16 \<Longrightarrow> subKey E rs label = Inl InputNotFullBlock"
  by (simp add: subKey_def Encrypt_def NewCipher_drop_err_conv valid_seed_def)

lemma subKey_long_name:
  assumes "valid_seed rs" "16 \<le> length label" "16 < length (Name rs)"
  shows "subKey E rs label = Inl IndexOutOfRange"
proof -
  let ?b = "be_bytes (E (Seed rs) (be_word (take 16 label)))"
  have "xor_name 0 (Name rs) ?b = Inl IndexOutOfRange"
    by (rule xor_name_Inl) (use assms in \<open>simp_all add: length_be_bytes\<close>)
  with assms show ?thesis
    by (simp add: subKey_def Encrypt_def NewCipher_drop_err_conv valid_seed_def length_be_bytes)
qed

lemma subKey_ok:
  assumes "valid_seed rs" "16 \<le> length label" "length (Name rs) \<le> 16"
  shows "\<exists>blk. xor_name 0 (Name rs) (be_bytes (E (Seed rs) (be_word (take 16 label)))) = Inr blk
           \<and> length blk = 16
           \<and> subKey E rs label = Inr (be_bytes (E (Seed rs) (be_word blk)))"
proof -
  let ?b = "be_bytes (E (Seed rs) (be_word (take 16 label)))"
  have "0 + length (Name rs) \<le> length ?b" using assms by (simp add: length_be_bytes)
  from xor_name_Inr [OF this] obtain blk where
    blk: "xor_name 0 (Name rs) ?b = Inr blk" "length blk = 16"
    by (auto simp: length_be_bytes)
  with assms have "subKey E rs label = Inr (be_bytes (E (Seed rs) (be_word blk)))"
    by (simp add: subKey_def Encrypt_def NewCipher_drop_err_conv valid_seed_def length_be_bytes)
  with blk show ?thesis by blast
qed

lemma subKey_Inr_length:
  assumes "subKey E rs label = Inr sk"
  shows "length sk = 16" and "valid_seed rs" and "16 \<le> length label" and "length (Name rs) \<le> 16"
proof -
  show vs: "valid_seed rs"
    using assms subKey_bad_seed [of rs E label] by auto
  show ll: "16 \<le> length label"
    using assms vs subKey_short_label [of rs label E] by (cases "length label < 16") auto
  show ln: "length (Name rs) \<le> 16"
    using assms vs ll subKey_long_name [of rs label E] by (cases "16 < length (Name rs)") auto
  from subKey_ok [OF vs ll ln, of E] assms show "length sk = 16"
    by (auto simp: length_be_bytes)
qed

lemma Stream_conv:
  "Stream E rs label =
     (case subKey E rs label of
        Inl p \<Rightarrow> Inl p
      | Inr sk \<Rightarrow> if length label \<noteq> 16 then Inl IVLength
                  else Inr (ctr_keystream E sk (be_word label)))"
proof (cases "subKey E rs label")
  case (Inl p)
  then show ?thesis by (simp add: Stream_def)
next
  case (Inr sk)
  from subKey_Inr_length(1) [OF this] Inr show ?thesis
    by (simp add: Stream_def NewCTR_def NewCipher_drop_err_conv)
qed

lemma Stream_Inr_iff:
  "(\<exists>ks. Stream E rs label = Inr ks) \<longleftrightarrow>
     valid_seed rs \<and> length (Name rs) \<le> 16 \<and> length label = 16"
proof
  assume "\<exists>ks. Stream E rs label = Inr ks"
  then obtain ks where ks: "Stream E rs label = Inr ks" ..
  then obtain sk where sk: "subKey E rs label = Inr sk" and l: "length label = 16"
    by (auto simp: Stream_conv split: sum.splits if_splits)
  from subKey_Inr_length [OF sk] l
  show "valid_seed rs \<and> length (Name rs) \<le> 16 \<and> length label = 16" by simp
next
  assume a: "valid_seed rs \<and> length (Name rs) \<le> 16 \<and> length label = 16"
  then have "\<exists>sk. subKey E rs label = Inr sk"
    using subKey_ok [of rs label E] by auto
  with a show "\<exists>ks. Stream E rs label = Inr ks"
    by (auto simp: Stream_conv)
qed

lemma Shuffle_hit:
  "encodingCache rs (copy16 label) = Some sh \<Longrightarrow>
     Shuffle E GenerateShuffle rs label = Some (Inr (sh, rs))"
  by (simp add: Shuffle_def)

lemma Matrix_hit:
  "matrixCache rs (copy16 label) = Some m \<Longrightarrow>
     Matrix E GenerateRandom rs label msize = Some (Inr (m, rs))"
  by (simp add: Matrix_def)

lemma Shuffle_Inr_cached:
  assumes "Shuffle E GenerateShuffle rs label = Some (Inr (sh, rs'))"
  shows "encodingCache rs' (copy16 label) = Some sh"
proof (cases "encodingCache rs (copy16 label)")
  case (Some cached)
  with assms show ?thesis by (simp add: Shuffle_def)
next
  case None
  with assms obtain ks where "Stream E rs label = Inr ks"
    and "GenerateShuffle ks = Some (Inr sh)"
    and "rs' = rs\<lparr>encodingCache := (encodingCache rs)(copy16 label \<mapsto> sh)\<rparr>"
    by (simp add: Shuffle_def split: sum.splits option.splits)
  then show ?thesis by simp
qed

lemma Matrix_Inr_cached:
  assumes "Matrix E GenerateRandom rs label msize = Some (Inr (m, rs'))"
  shows "matrixCache rs' (copy16 label) = Some m"
proof (cases "matrixCache rs (copy16 label)")
  case (Some cached)
  with assms show ?thesis by (simp add: Matrix_def)
next
  case None
  with assms obtain ks where "Stream E rs label = Inr ks"
    and "GenerateRandom ks msize = Some (Inr m)"
    and "rs' = rs\<lparr>matrixCache := (matrixCache rs)(copy16 label \<mapsto> m)\<rparr>"
    by (simp add: Matrix_def split: sum.splits option.splits)
  then show ?thesis by simp
qed


lemma valid_seed_conv:
  "valid_seed rs \<longleftrightarrow> length (Seed rs) \<in> {16, 24, 32}"
  by (simp add: valid_seed_def)

lemma subKey_NilDereference_iff:
  "subKey E rs label = Inl NilDereference \<longleftrightarrow> \<not> valid_seed rs"
proof
  assume nd: "subKey E rs label = Inl NilDereference"
  show "\<not> valid_seed rs"
  proof
    assume vs: "valid_seed rs"
    show False
    proof (cases "length label < 16")
      case True
      with vs nd show False by (simp add: subKey_short_label)
    next
      case False
      then have ll: "16 \<le> length label" by simp
      show False
      proof (cases "16 < length (Name rs)")
        case True
        with vs ll nd show False by (simp add: subKey_long_name)
      next
        case False
        then have "length (Name rs) \<le> 16" by simp
        from subKey_ok [OF vs ll this, of E] nd show False by auto
      qed
    qed
  qed
next
  assume "\<not> valid_seed rs"
  then show "subKey E rs label = Inl NilDereference" by (rule subKey_bad_seed)
qed

lemma xor_name_16:
  assumes "length blk = 16" "length name \<le> 16"
  shows "\<exists>res. xor_name 0 name blk = Inr res \<and> length res = 16 \<and>
           (\<forall>j<16. res ! j = (if j < length name then blk ! j XOR name ! j else blk ! j))"
proof -
  have "0 + length name \<le> length blk" using assms by simp
  from xor_name_Inr [OF this] assms(1) show ?thesis by auto
qed

lemma xor_name_pad:
  assumes "length blk = 16" "length name \<le> 16"
  shows "xor_name 0 (name @ replicate (16 - length name) 0) blk = xor_name 0 name blk"
proof -
  let ?p = "name @ replicate (16 - length name) 0"
  from xor_name_16 [OF assms] obtain r1 where
    r1: "xor_name 0 name blk = Inr r1" "length r1 = 16"
      "\<forall>j<16. r1 ! j = (if j < length name then blk ! j XOR name ! j else blk ! j)"
    by blast
  have lp: "length ?p \<le> 16" using assms by simp
  from xor_name_16 [OF assms(1) lp] obtain r2 where
    r2: "xor_name 0 ?p blk = Inr r2" "length r2 = 16"
      "\<forall>j<16. r2 ! j = (if j < length ?p then blk ! j XOR ?p ! j else blk ! j)"
    by blast
  have "r2 = r1"
  proof (rule nth_equalityI)
    show "length r2 = length r1" using r1 r2 by simp
    fix j assume "j < length r2"
    then have j: "j < 16" using r2 by simp
    with assms have "j < length ?p" by simp
    with r1(3) r2(3) j show "r2 ! j = r1 ! j"
      by (simp add: nth_append)
  qed
  with r1 r2 show ?thesis by simp
qed

lemma subKey_name_pad:
  assumes "length (Name rs) \<le> 16"
  shows "subKey E (rs\<lparr>Name := Name rs @ replicate (16 - length (Name rs)) 0\<rparr>) label =
         subKey E rs label"
proof -
  let ?c = "NewCipher_drop_err (Seed rs)"
  show ?thesis
  proof (cases "Encrypt E ?c (replicate 16 0) label")
    case (Inl p)
    then show ?thesis by (simp add: subKey_def)
  next
    case (Inr blk)
    then have "length blk = 16"
      by (auto simp: Encrypt_def length_be_bytes split: option.splits if_splits)
    from xor_name_pad [OF this assms] Inr show ?thesis
      by (simp add: subKey_def)
  qed
qed

lemma Stream_short_label:
  "valid_seed rs \<Longrightarrow> length label < 16 \<Longrightarrow> Stream E rs label = Inl InputNotFullBlock"
  by (simp add: Stream_conv subKey_short_label)

lemma Stream_long_label:
  assumes "valid_seed rs" "length (Name rs) \<le> 16" "16 < length label"
  shows "Stream E rs label = Inl IVLength"
proof -
  from assms have "16 \<le> length label" by simp
  from subKey_ok [OF assms(1) this assms(2), of E] assms(3) show ?thesis
    by (auto simp: Stream_conv)
qed

lemma Stream_Inr_keystream:
  assumes "Stream E rs label = Inr ks"
  shows "\<exists>sk. subKey E rs label = Inr sk \<and> length sk = 16 \<and>
           ks = ctr_keystream E sk (be_word label)"
proof -
  from assms obtain sk where sk: "subKey E rs label = Inr sk"
    and ks: "ks = ctr_keystream E sk (be_word label)"
    by (auto simp: Stream_conv split: sum.splits if_splits)
  from subKey_Inr_length(1) [OF sk] sk ks show ?thesis by blast
qed

lemma guess_Inl:
  assumes "guess ks pos n tsum = Inl p"
  shows "p = DivideByZero" and "0 < n" and "sum_list (weights ks pos n) = 0"
  using assms by (auto simp: guess_conv split: if_splits)

lemma Stream_Inl:
  assumes "Stream E rs label = Inl p"
  shows "p \<in> {NilDereference, InputNotFullBlock, IndexOutOfRange, IVLength}"
proof (cases "valid_seed rs")
  case False
  with assms show ?thesis by (simp add: Stream_conv subKey_bad_seed)
next
  case vs: True
  show ?thesis
  proof (cases "length label < 16")
    case True
    with vs assms show ?thesis by (simp add: Stream_short_label)
  next
    case False
    then have ll: "16 \<le> length label" by simp
    show ?thesis
    proof (cases "16 < length (Name rs)")
      case True
      with vs ll assms show ?thesis by (simp add: Stream_conv subKey_long_name)
    next
      case False
      then have ln: "length (Name rs) \<le> 16" by simp
      from subKey_ok [OF vs ll ln, of E] assms show ?thesis
        by (auto simp: Stream_conv split: if_splits)
    qed
  qed
qed


lemma make_len_Inl: "make_len sz len = Inl p \<Longrightarrow> p = MakeSliceLen"
  by (auto simp: make_len_def split: if_splits)

lemma dirichlet_loop_exit:
  "dirichlet_loop ks n tsum pos out tsum = Some (Inr out)"
  by (subst dirichlet_loop.simps) simp

lemma dirichlet_loop_step:
  "c \<noteq> tsum \<Longrightarrow> dirichlet_loop ks n tsum pos out c =
     (case guess ks pos n tsum of
        Inl p \<Rightarrow> Some (Inl p)
      | Inr out' \<Rightarrow> dirichlet_loop ks n tsum (pos + n) out' (foldl (+) 0 out'))"
  by (subst dirichlet_loop.simps) simp

lemma Dirichlet_ZeroVariables_iff:
  "Dirichlet E rs label len tsum = Some (Inl ZeroVariablesNonZeroSum) \<longleftrightarrow> len = 0 \<and> tsum \<noteq> 0"
proof
  assume d: "Dirichlet E rs label len tsum = Some (Inl ZeroVariablesNonZeroSum)"
  show "len = 0 \<and> tsum \<noteq> 0"
  proof (rule ccontr)
    assume "\<not> (len = 0 \<and> tsum \<noteq> 0)"
    then have "Dirichlet E rs label len tsum =
        (case make_len 8 len of
           Inl p \<Rightarrow> Some (Inl p)
         | Inr n \<Rightarrow>
             (case Stream E rs label of
                Inl p \<Rightarrow> Some (Inl p)
              | Inr ks \<Rightarrow> dirichlet_loop ks n tsum 0 (replicate n 0) 0))"
      unfolding Dirichlet_def by (simp only: if_False)
    with d have n: "(case make_len 8 len of
           Inl p \<Rightarrow> Some (Inl p)
         | Inr n \<Rightarrow>
             (case Stream E rs label of
                Inl p \<Rightarrow> Some (Inl p)
              | Inr ks \<Rightarrow> dirichlet_loop ks n tsum 0 (replicate n 0) 0)) =
         Some (Inl ZeroVariablesNonZeroSum)" by simp
    show False
    proof (cases "make_len 8 len")
      case (Inl p)
      with n make_len_Inl [OF Inl] show False by simp
    next
      case (Inr m)
      show False
      proof (cases "Stream E rs label")
        case (Inl p)
        with n Inr Stream_Inl [OF Inl] show False by auto
      next
        case ks: (Inr ks)
        with n Inr have "dirichlet_loop ks m tsum 0 (replicate m 0) 0 = Some (Inl ZeroVariablesNonZeroSum)"
          by simp
        from dirichlet_loop_post [OF this] obtain pos' where
          "guess ks pos' m tsum = Inl ZeroVariablesNonZeroSum"
          by (auto simp: loop_post_def)
        from guess_Inl(1) [OF this] show False by simp
      qed
    qed
  qed
next
  assume "len = 0 \<and> tsum \<noteq> 0"
  then show "Dirichlet E rs label len tsum = Some (Inl ZeroVariablesNonZeroSum)"
    by (simp add: Dirichlet_def)
qed

lemma Dirichlet_zero_zero:
  "Dirichlet E rs label 0 0 =
     (case Stream E rs label of Inl p \<Rightarrow> Some (Inl p) | Inr ks \<Rightarrow> Some (Inr []))"
  by (simp add: Dirichlet_def make_len_def maxAlloc_def dirichlet_loop_exit split: sum.splits)

lemma ucast_byte_eq_0_iff:
  fixes b :: byte
  shows "(ucast b :: goint) = 0 \<longleftrightarrow> b = 0"
proof
  assume "(ucast b :: goint) = 0"
  then have "sint (ucast b :: goint) = 0" by simp
  then have "uint b = 0" by (simp only: sint_ucast_byte)
  then show "b = 0" by (simp add: uint_0_iff)
next
  assume "b = 0"
  then show "(ucast b :: goint) = 0" by simp
qed

lemma sum_list_nonneg_eq_0_iff_int:
  fixes xs :: "int list"
  assumes "\<forall>x\<in>set xs. 0 \<le> x"
  shows "sum_list xs = 0 \<longleftrightarrow> (\<forall>x\<in>set xs. x = 0)"
  using assms
proof (induction xs)
  case Nil
  then show ?case by simp
next
  case (Cons a xs)
  have "0 \<le> sum_list xs" by (rule sum_list_nonneg) (use Cons.prems in auto)
  moreover have "0 \<le> a" using Cons.prems by simp
  ultimately have "a + sum_list xs = 0 \<longleftrightarrow> a = 0 \<and> sum_list xs = 0" by linarith
  with Cons show ?case by simp
qed

lemma sum_weights_eq_0_iff:
  assumes "int n \<le> 2 ^ 45"
  shows "sum_list (weights ks pos n) = 0 \<longleftrightarrow> (\<forall>i<n. ks (pos + i) = 0)"
proof -
  let ?xs = "weights ks pos n"
  have nn: "\<forall>w\<in>set (map sint ?xs). 0 \<le> w"
    using weights_sint(1) [of _ ks pos n] by auto
  have "sum_list ?xs = 0 \<longleftrightarrow> sint (sum_list ?xs) = 0"
    by (simp add: signed_eq_0_iff)
  also have "\<dots> \<longleftrightarrow> sum_list (map sint ?xs) = 0"
    by (simp only: sint_sum_weights [OF assms])
  also have "\<dots> \<longleftrightarrow> (\<forall>w\<in>set (map sint ?xs). w = 0)"
    by (rule sum_list_nonneg_eq_0_iff_int [OF nn])
  also have "\<dots> \<longleftrightarrow> (\<forall>x\<in>set ?xs. x = 0)"
    by (simp add: signed_eq_0_iff)
  also have "\<dots> \<longleftrightarrow> (\<forall>i<n. ?xs ! i = 0)"
    by (simp add: all_set_conv_all_nth length_weights)
  also have "\<dots> \<longleftrightarrow> (\<forall>i<n. ks (pos + i) = 0)"
    by (simp add: weights_def ucast_byte_eq_0_iff)
  finally show ?thesis .
qed

lemma guess_DivideByZero_iff:
  assumes "0 < n" "int n \<le> 2 ^ 45"
  shows "guess ks pos n tsum = Inl DivideByZero \<longleftrightarrow> (\<forall>i<n. ks (pos + i) = 0)"
  using assms by (simp add: guess_conv sum_weights_eq_0_iff)

lemma Dirichlet_first_draw_zero:
  assumes len: "0 < sint len" "8 * sint len \<le> maxAlloc" and ts: "tsum \<noteq> 0"
    and ks: "Stream E rs label = Inr ks" and z: "\<forall>i<nat (sint len). ks i = 0"
  shows "Dirichlet E rs label len tsum = Some (Inl DivideByZero)"
proof -
  let ?n = "nat (sint len)"
  from len have l0: "len \<noteq> 0" by auto
  from len have ml: "make_len 8 len = Inr ?n" by (simp add: make_len_def)
  from len have n: "0 < ?n" "int ?n \<le> 2 ^ 45" by (simp_all add: maxAlloc_def)
  from z have "\<forall>i<?n. ks (0 + i) = 0" by simp
  then have g: "guess ks 0 ?n tsum = Inl DivideByZero"
    by (simp only: guess_DivideByZero_iff [OF n])
  from ts have "(0 :: goint) \<noteq> tsum" by simp
  from dirichlet_loop_step [OF this, of ks ?n 0 "replicate ?n 0"] g
  have "dirichlet_loop ks ?n tsum 0 (replicate ?n 0) 0 = Some (Inl DivideByZero)" by simp
  with l0 ml ks show ?thesis by (simp add: Dirichlet_def)
qed

lemma Stream_zero_label_test:
  "Stream id_cipher test_rs zero_label =
     Inr (ctr_keystream id_cipher [116, 101, 115, 116, 0, 0, 0, 0, 0, 0, 0, 0, 0, 0, 0, 0] 0)"
proof -
  have "subKey id_cipher test_rs zero_label =
          Inr [116, 101, 115, 116, 0, 0, 0, 0, 0, 0, 0, 0, 0, 0, 0, 0]"
    by code_simp
  moreover have "be_word zero_label = 0" by code_simp
  ultimately show ?thesis by (simp add: Stream_conv) (simp add: zero_label_def)
qed

lemma zero_label_keystream:
  assumes "i < 3"
  shows "ctr_keystream id_cipher [116, 101, 115, 116, 0, 0, 0, 0, 0, 0, 0, 0, 0, 0, 0, 0] 0 i = 0"
proof -
  let ?z = "ctr_keystream id_cipher [116, 101, 115, 116, 0, 0, 0, 0, 0, 0, 0, 0, 0, 0, 0, 0] 0"
  have "?z 0 = 0" "?z 1 = 0" "?z 2 = 0" by code_simp+
  moreover from assms have "i = 0 \<or> i = 1 \<or> i = 2" by arith
  ultimately show ?thesis by auto
qed

















section \<open>Concrete runs\<close>

lemma test_rs_sel:
  "Name test_rs = [116, 101, 115, 116]" "Seed test_rs = replicate 16 0"
  "encodingCache test_rs = Map.empty" "matrixCache test_rs = Map.empty"
  by (simp_all add: test_rs_def NewRandomSource_def)

lemma subKey_test: "subKey id_cipher test_rs pi_label = Inr [119, 100, 119, 117, 5, 9, 2, 6, 5, 3, 5, 8, 9, 7, 9, 3]"
  by code_simp

lemma Stream_test:
  "Stream id_cipher test_rs pi_label =
     Inr (ctr_keystream id_cipher [119, 100, 119, 117, 5, 9, 2, 6, 5, 3, 5, 8, 9, 7, 9, 3] (be_word pi_label))"
  by (simp add: Stream_conv subKey_test) (simp add: pi_label_def)

lemma ks_test:
  "map (ctr_keystream id_cipher [119, 100, 119, 117, 5, 9, 2, 6, 5, 3, 5, 8, 9, 7, 9, 3] (be_word pi_label)) [0..<16] = pi_label"
  by code_simp

lemma copy16_pi: "copy16 pi_label = pi_label"
  by code_simp

lemma Shuffle_test:
  "Shuffle id_cipher first16_gen test_rs pi_label =
     Some (Inr (pi_label, test_rs\<lparr>encodingCache := [pi_label \<mapsto> pi_label]\<rparr>))"
  by (simp add: Shuffle_def copy16_pi test_rs_sel Stream_test first16_gen_def ks_test)

lemma Matrix_test:
  "Matrix id_cipher firstn_gen test_rs pi_label 3 =
     Some (Inr ([3, 1, 4], test_rs\<lparr>matrixCache := [pi_label \<mapsto> [3, 1, 4]]\<rparr>))"
proof -
  have "map (ctr_keystream id_cipher [119, 100, 119, 117, 5, 9, 2, 6, 5, 3, 5, 8, 9, 7, 9, 3] (be_word pi_label)) [0..<nat (sint (3 :: goint))] = [3, 1, 4]"
    by code_simp
  then show ?thesis
    by (simp add: Matrix_def copy16_pi test_rs_sel Stream_test firstn_gen_def)
qed

section \<open>A run in which a scaled weight overflows\<close>



lemma ovf_sint_neg: "sint (- 90781220 :: goint) = - 90781220"
  by simp

lemma ovf_candSum: "(254 :: goint) + 255 + of_nat (400000000 - 2) * 254 = 101600000001"
  by simp

lemma ovf_total: "(90425217 :: goint) + (- 90781220) + of_nat (400000000 - 2) * 90425217 = 36170086618793563"
  by simp






















lemma dirichlet_loop_stuck:
  "dirichlet_loop ks n tsum pos out c = Some y \<Longrightarrow> loop_stuck ks n tsum pos out c y"
proof (erule dirichlet_loop.raw_induct[rotated], goal_cases)
  case (1 loop ks n tsum pos out c y)
  show ?case
    unfolding loop_stuck_def
  proof
    assume a: "always_rejects ks n tsum c"
    then have c: "c \<noteq> tsum" by (simp add: always_rejects_def)
    from a obtain out' where g: "guess ks pos n tsum = Inr out'"
      and s: "foldl (+) 0 out' \<noteq> tsum"
      unfolding always_rejects_def by blast
    from 1(2) c g have "loop ks n tsum (pos + n) out' (foldl (+) 0 out') = Some y"
      by simp
    from 1(1) [OF this] have "\<not> always_rejects ks n tsum (foldl (+) 0 out')"
      by (simp add: loop_stuck_def)
    with a s show False by (simp add: always_rejects_def)
  qed
qed

lemma dirichlet_loop_None:
  assumes "always_rejects ks n tsum c"
  shows "dirichlet_loop ks n tsum pos out c = None"
proof (cases "dirichlet_loop ks n tsum pos out c")
  case None
  then show ?thesis .
next
  case (Some y)
  from dirichlet_loop_stuck [OF Some] assms show ?thesis
    by (simp add: loop_stuck_def)
qed

lemma two_keystream: "ctr_keystream two_cipher key iv i = 2"
proof -
  have "be_bytes (be_word (replicate 16 2)) = replicate 16 2" by code_simp
  then show ?thesis by (simp add: ctr_keystream_def two_cipher_def)
qed

lemma weights_two: "weights (ctr_keystream two_cipher key iv) pos 2 = [2, 2]"
  by (rule nth_equalityI) (simp_all add: weights_def two_keystream nth_Cons')

lemma guess_two: "guess (ctr_keystream two_cipher key iv) pos 2 3 = Inr [2, 2]"
proof -
  have "rounded 3 4 2 = 2" by code_simp
  then show ?thesis by (simp add: guess_conv weights_two)
qed

section \<open>C1: what the sampler returns\<close>




section \<open>C2: the zero-length contract of the sampler\<close>

text \<open>
  C2 (as amended). The sampler fails with its own precondition panic if and only if it is
  called with \<open>length == 0\<close> and \<open>targetSum != 0\<close>. Called with \<open>length == 0\<close> and
  \<open>targetSum == 0\<close> it returns the empty sequence when the stream for the label can be
  derived (a seed of 16, 24 or 32 bytes, a name of at most 16 bytes, a 16-byte label), and
  otherwise propagates the panic of the derivation.
\<close>

theorem Dirichlet_zero_length:
  "(Dirichlet E rs label len tsum = Some (Inl ZeroVariablesNonZeroSum) \<longleftrightarrow>
      len = 0 \<and> tsum \<noteq> 0) \<and>
   (length (Seed rs) \<in> {16, 24, 32} \<and> length (Name rs) \<le> 16 \<and> length label = 16 \<longrightarrow>
      Dirichlet E rs label 0 0 = Some (Inr [])) \<and>
   (Stream E rs label = Inl p \<longrightarrow> Dirichlet E rs label 0 0 = Some (Inl p))"
proof (intro conjI impI)
  show "Dirichlet E rs label len tsum = Some (Inl ZeroVariablesNonZeroSum) \<longleftrightarrow>
      len = 0 \<and> tsum \<noteq> 0"
    by (rule Dirichlet_ZeroVariables_iff)
next
  assume "length (Seed rs) \<in> {16, 24, 32} \<and> length (Name rs) \<le> 16 \<and> length label = 16"
  then have "\<exists>ks. Stream E rs label = Inr ks"
    by (simp only: Stream_Inr_iff valid_seed_conv)
  then show "Dirichlet E rs label 0 0 = Some (Inr [])"
    by (auto simp: Dirichlet_zero_zero)
next
  assume "Stream E rs label = Inl p"
  then show "Dirichlet E rs label 0 0 = Some (Inl p)"
    by (simp add: Dirichlet_zero_zero)
qed

text \<open>
  No variables and a sum of 5 is the precondition panic; no variables and a sum of 0 is
  the empty sequence for a 16-byte label, and the panic of the derivation for a 3-byte
  label.
\<close>

theorem Dirichlet_zero_length_witness:
  "Dirichlet id_cipher test_rs pi_label 0 5 = Some (Inl ZeroVariablesNonZeroSum) \<and>
   Dirichlet id_cipher test_rs pi_label 0 0 = Some (Inr []) \<and>
   Dirichlet id_cipher test_rs [3, 1, 4] 0 0 = Some (Inl InputNotFullBlock)"
proof -
  have vs: "valid_seed test_rs" by (simp add: valid_seed_def test_rs_sel)
  have s: "Stream id_cipher test_rs [3, 1, 4] = Inl InputNotFullBlock"
    by (rule Stream_short_label [OF vs]) simp
  from Dirichlet_zero_length [of id_cipher test_rs pi_label 0 5]
    Dirichlet_zero_length [of id_cipher test_rs "[3, 1, 4]" 0 0 InputNotFullBlock] s
  show ?thesis by (simp add: test_rs_sel pi_label_def)
qed

text \<open>
  The claim as stated fails in its ``only if'': the sampler also panics when the length
  is not zero (a negative length; a draw of zero bytes only), and with \<open>length == 0\<close>
  and \<open>targetSum == 0\<close> it panics instead of returning the empty sequence when the
  label has 3 bytes.
\<close>

theorem Dirichlet_other_panics_counterexample:
  "Dirichlet id_cipher test_rs pi_label (- 1) 0 = Some (Inl MakeSliceLen) \<and>
   Dirichlet id_cipher test_rs zero_label 3 7 = Some (Inl DivideByZero) \<and>
   Dirichlet id_cipher test_rs [3, 1, 4] 0 0 = Some (Inl InputNotFullBlock)"
  by code_simp

section \<open>C3: the monotone generator\<close>




section \<open>C4: determinism of the derivations\<close>




section \<open>C5: the name XOR in subkey derivation\<close>

text \<open>
  C5 (as amended). For a name of at most 16 bytes the XOR changes the positions below the
  name's length and leaves the others as the first encryption produced them, so the
  subkey equals the one derived with the name zero-padded to 16 bytes. A name longer than
  16 bytes is not truncated: with a seed the cipher accepts and a label of at least 16
  bytes, \<open>subKey\<close> panics with an index out of range.
\<close>

theorem subKey_name_xor:
  "(length blk = 16 \<and> length (Name rs) \<le> 16 \<longrightarrow>
      (\<exists>res. xor_name 0 (Name rs) blk = Inr res \<and> length res = 16 \<and>
         (\<forall>j<16. res ! j =
            (if j < length (Name rs) then blk ! j XOR Name rs ! j else blk ! j)))) \<and>
   (length (Name rs) \<le> 16 \<longrightarrow>
      subKey E (rs\<lparr>Name := Name rs @ replicate (16 - length (Name rs)) 0\<rparr>) label =
      subKey E rs label) \<and>
   (length (Seed rs) \<in> {16, 24, 32} \<and> 16 \<le> length label \<and> 16 < length (Name rs) \<longrightarrow>
      subKey E rs label = Inl IndexOutOfRange)"
proof (intro conjI impI)
  assume "length blk = 16 \<and> length (Name rs) \<le> 16"
  then show "\<exists>res. xor_name 0 (Name rs) blk = Inr res \<and> length res = 16 \<and>
         (\<forall>j<16. res ! j =
            (if j < length (Name rs) then blk ! j XOR Name rs ! j else blk ! j))"
    using xor_name_16 [of blk "Name rs"] by simp
next
  assume "length (Name rs) \<le> 16"
  then show "subKey E (rs\<lparr>Name := Name rs @ replicate (16 - length (Name rs)) 0\<rparr>) label =
      subKey E rs label"
    by (rule subKey_name_pad)
next
  assume a: "length (Seed rs) \<in> {16, 24, 32} \<and> 16 \<le> length label \<and> 16 < length (Name rs)"
  then have "valid_seed rs" by (simp only: valid_seed_conv)
  with a show "subKey E rs label = Inl IndexOutOfRange"
    by (simp add: subKey_long_name)
qed

text \<open>
  The name \<open>test\<close> changes the first four bytes of the block, padding it with zeros
  changes nothing, and a 17-byte name panics.
\<close>

theorem subKey_name_xor_witness:
  "xor_name 0 (Name test_rs) pi_label = Inr [119, 100, 119, 117, 5, 9, 2, 6, 5, 3, 5, 8, 9, 7, 9, 3] \<and>
   subKey id_cipher (test_rs\<lparr>Name := [116, 101, 115, 116, 0, 0, 0, 0, 0, 0, 0, 0, 0, 0, 0, 0]\<rparr>) pi_label =
     subKey id_cipher test_rs pi_label \<and>
   subKey id_cipher long_name_rs pi_label = Inl IndexOutOfRange"
proof -
  have x: "xor_name 0 (Name test_rs) pi_label = Inr [119, 100, 119, 117, 5, 9, 2, 6, 5, 3, 5, 8, 9, 7, 9, 3]"
    by code_simp
  have l: "Seed long_name_rs = replicate 16 0" "Name long_name_rs = replicate 17 1"
    by (simp_all add: long_name_rs_def NewRandomSource_def)
  have r: "replicate 12 (0 :: byte) = [0, 0, 0, 0, 0, 0, 0, 0, 0, 0, 0, 0]"
    by code_simp
  from subKey_name_xor [of pi_label test_rs id_cipher pi_label]
    subKey_name_xor [of pi_label long_name_rs id_cipher pi_label] x
  show ?thesis by (simp add: test_rs_sel l pi_label_def r)
qed

text \<open>
  The claim as stated fails: with a 17-byte name the derivation panics, with the name
  truncated to its first 16 bytes it returns a subkey.
\<close>

theorem subKey_long_name_counterexample:
  "subKey id_cipher long_name_rs pi_label = Inl IndexOutOfRange \<and>
   take 16 (Name long_name_rs) = Name name16_rs \<and> Seed long_name_rs = Seed name16_rs \<and>
   subKey id_cipher name16_rs pi_label = Inr [2, 0, 5, 0, 4, 8, 3, 7, 4, 2, 4, 9, 8, 6, 8, 2]"
  by code_simp

section \<open>C6: the label as the counter-mode initial block\<close>

text \<open>
  C6 (as amended). \<open>Stream\<close> returns exactly when the seed has 16, 24 or 32 bytes, the
  name at most 16 and the label exactly 16 bytes; the stream is then the counter-mode
  keystream under the subkey with the label itself as the initial counter block. The label
  is neither padded nor truncated: with such a seed a label shorter than 16 bytes panics
  in the first encryption of \<open>subKey\<close>, and (the name being at most 16 bytes) a longer
  label panics in \<open>cipher.NewCTR\<close>.
\<close>

theorem Stream_label_length:
  "((\<exists>ks. Stream E rs label = Inr ks) \<longleftrightarrow>
      length (Seed rs) \<in> {16, 24, 32} \<and> length (Name rs) \<le> 16 \<and> length label = 16) \<and>
   (Stream E rs label = Inr ks \<longrightarrow>
      (\<exists>sk. subKey E rs label = Inr sk \<and> length sk = 16 \<and>
         ks = ctr_keystream E sk (be_word label))) \<and>
   (length (Seed rs) \<in> {16, 24, 32} \<and> length label < 16 \<longrightarrow>
      Stream E rs label = Inl InputNotFullBlock) \<and>
   (length (Seed rs) \<in> {16, 24, 32} \<and> length (Name rs) \<le> 16 \<and> 16 < length label \<longrightarrow>
      Stream E rs label = Inl IVLength)"
proof (intro conjI impI)
  show "(\<exists>ks. Stream E rs label = Inr ks) \<longleftrightarrow>
      length (Seed rs) \<in> {16, 24, 32} \<and> length (Name rs) \<le> 16 \<and> length label = 16"
    by (simp only: Stream_Inr_iff valid_seed_conv)
next
  assume "Stream E rs label = Inr ks"
  then show "\<exists>sk. subKey E rs label = Inr sk \<and> length sk = 16 \<and>
         ks = ctr_keystream E sk (be_word label)"
    by (rule Stream_Inr_keystream)
next
  assume "length (Seed rs) \<in> {16, 24, 32} \<and> length label < 16"
  then show "Stream E rs label = Inl InputNotFullBlock"
    by (simp add: Stream_short_label valid_seed_conv)
next
  assume "length (Seed rs) \<in> {16, 24, 32} \<and> length (Name rs) \<le> 16 \<and> 16 < length label"
  then show "Stream E rs label = Inl IVLength"
    by (simp add: Stream_long_label valid_seed_conv)
qed

text \<open>
  A 16-byte label gives the keystream that starts at the label; a 3-byte label and a
  17-byte label panic.
\<close>

theorem Stream_label_length_witness:
  "Stream id_cipher test_rs pi_label =
     Inr (ctr_keystream id_cipher [119, 100, 119, 117, 5, 9, 2, 6, 5, 3, 5, 8, 9, 7, 9, 3]
            (be_word pi_label)) \<and>
   Stream id_cipher test_rs [3, 1, 4] = Inl InputNotFullBlock \<and>
   Stream id_cipher test_rs (pi_label @ [2]) = Inl IVLength"
proof -
  from Stream_label_length [of id_cipher test_rs pi_label
      "ctr_keystream id_cipher [119, 100, 119, 117, 5, 9, 2, 6, 5, 3, 5, 8, 9, 7, 9, 3] (be_word pi_label)"]
    Stream_label_length [of id_cipher test_rs "[3, 1, 4]"]
    Stream_label_length [of id_cipher test_rs "pi_label @ [2]"]
    Stream_test
  show ?thesis by (simp add: test_rs_sel pi_label_def)
qed

text \<open>
  The claim as stated fails: the stream for a 3-byte label is a panic, the stream for the
  same label zero-padded to 16 bytes is a keystream; likewise for a 17-byte label and its
  first 16 bytes.
\<close>

theorem Stream_short_label_counterexample:
  "Stream id_cipher test_rs [3, 1, 4] = Inl InputNotFullBlock \<and>
   copy16 [3, 1, 4] = [3, 1, 4, 0, 0, 0, 0, 0, 0, 0, 0, 0, 0, 0, 0, 0] \<and>
   Stream id_cipher test_rs [3, 1, 4, 0, 0, 0, 0, 0, 0, 0, 0, 0, 0, 0, 0, 0] =
     Inr (ctr_keystream id_cipher [119, 100, 119, 116, 0, 0, 0, 0, 0, 0, 0, 0, 0, 0, 0, 0]
            (be_word [3, 1, 4, 0, 0, 0, 0, 0, 0, 0, 0, 0, 0, 0, 0, 0])) \<and>
   Stream id_cipher test_rs (pi_label @ [2]) = Inl IVLength \<and>
   copy16 (pi_label @ [2]) = pi_label \<and>
   Stream id_cipher test_rs pi_label =
     Inr (ctr_keystream id_cipher [119, 100, 119, 117, 5, 9, 2, 6, 5, 3, 5, 8, 9, 7, 9, 3]
            (be_word pi_label))"
proof -
  have vs: "valid_seed test_rs" by (simp add: valid_seed_def test_rs_sel)
  have 1: "Stream id_cipher test_rs [3, 1, 4] = Inl InputNotFullBlock"
    by (rule Stream_short_label [OF vs]) simp
  have 2: "copy16 [3, 1, 4] = [3, 1, 4, 0, 0, 0, 0, 0, 0, 0, 0, 0, 0, 0, 0, 0]"
    by code_simp
  have "subKey id_cipher test_rs [3, 1, 4, 0, 0, 0, 0, 0, 0, 0, 0, 0, 0, 0, 0, 0] =
          Inr [119, 100, 119, 116, 0, 0, 0, 0, 0, 0, 0, 0, 0, 0, 0, 0]"
    by code_simp
  then have 3: "Stream id_cipher test_rs [3, 1, 4, 0, 0, 0, 0, 0, 0, 0, 0, 0, 0, 0, 0, 0] =
     Inr (ctr_keystream id_cipher [119, 100, 119, 116, 0, 0, 0, 0, 0, 0, 0, 0, 0, 0, 0, 0]
            (be_word [3, 1, 4, 0, 0, 0, 0, 0, 0, 0, 0, 0, 0, 0, 0, 0]))"
    by (simp add: Stream_conv)
  have 4: "Stream id_cipher test_rs (pi_label @ [2]) = Inl IVLength"
    by (rule Stream_long_label [OF vs]) (simp_all add: test_rs_sel pi_label_def)
  have 5: "copy16 (pi_label @ [2]) = pi_label"
    by code_simp
  from 1 2 3 4 5 Stream_test show ?thesis by simp
qed

section \<open>C7: seeds the cipher does not accept\<close>

text \<open>
  C7 (as amended). \<open>aes.NewCipher\<close> reports \<open>KeySizeError\<close> exactly for seeds that are
  not 16, 24 or 32 bytes long. \<open>subKey\<close> drops that error: it panics with a nil
  dereference at its first \<open>Encrypt\<close> exactly for those seeds, whatever the label and
  the name, and a seed of 16, 24 or 32 bytes with a label of at least 16 bytes and a name
  of at most 16 bytes yields a 16-byte subkey.
\<close>

theorem subKey_seed_length:
  "(NewCipher (Seed rs) = Inl (KeySizeError (length (Seed rs))) \<longleftrightarrow>
      length (Seed rs) \<notin> {16, 24, 32}) \<and>
   (subKey E rs label = Inl NilDereference \<longleftrightarrow> length (Seed rs) \<notin> {16, 24, 32}) \<and>
   (length (Seed rs) \<in> {16, 24, 32} \<and> 16 \<le> length label \<and> length (Name rs) \<le> 16 \<longrightarrow>
      (\<exists>sk. subKey E rs label = Inr sk \<and> length sk = 16))"
proof (intro conjI impI)
  show "NewCipher (Seed rs) = Inl (KeySizeError (length (Seed rs))) \<longleftrightarrow>
      length (Seed rs) \<notin> {16, 24, 32}"
    by (simp add: NewCipher_def)
  show "subKey E rs label = Inl NilDereference \<longleftrightarrow> length (Seed rs) \<notin> {16, 24, 32}"
    by (simp only: subKey_NilDereference_iff valid_seed_conv)
next
  assume a: "length (Seed rs) \<in> {16, 24, 32} \<and> 16 \<le> length label \<and> length (Name rs) \<le> 16"
  then have vs: "valid_seed rs" by (simp only: valid_seed_conv)
  from subKey_ok [OF vs, of label E] a
  show "\<exists>sk. subKey E rs label = Inr sk \<and> length sk = 16"
    by (auto simp: length_be_bytes)
qed

text \<open>A 5-byte seed panics, a 24-byte seed derives a subkey.\<close>

theorem subKey_seed_length_witness:
  "NewCipher (Seed seed5_rs) = Inl (KeySizeError 5) \<and>
   subKey id_cipher seed5_rs pi_label = Inl NilDereference \<and>
   (\<exists>sk. subKey id_cipher seed24_rs pi_label = Inr sk \<and> length sk = 16)"
proof -
  have s5: "Seed seed5_rs = [1, 2, 3, 4, 5]" "Name seed5_rs = [116, 101, 115, 116]"
    by (simp_all add: seed5_rs_def NewRandomSource_def)
  have s24: "Seed seed24_rs = replicate 24 0" "Name seed24_rs = [116, 101, 115, 116]"
    by (simp_all add: seed24_rs_def NewRandomSource_def)
  from subKey_seed_length [of seed5_rs id_cipher pi_label]
    subKey_seed_length [of seed24_rs id_cipher pi_label]
  show ?thesis by (simp add: s5 s24 pi_label_def)
qed

text \<open>
  The claim as stated fails: a 24-byte seed is not 16 bytes long and subkey derivation
  succeeds; a 5-byte seed does not surface a key-length error but a nil dereference.
\<close>

theorem subKey_seed_24_counterexample:
  "length (Seed seed24_rs) \<noteq> 16 \<and>
   subKey id_cipher seed24_rs pi_label =
     Inr [119, 100, 119, 117, 5, 9, 2, 6, 5, 3, 5, 8, 9, 7, 9, 3] \<and>
   length (Seed seed5_rs) \<noteq> 16 \<and>
   subKey id_cipher seed5_rs pi_label = Inl NilDereference"
  by code_simp

section \<open>C8: labels that agree on their first 16 bytes share a cache entry\<close>



section \<open>C9: a cache hit returns the stored value and changes nothing\<close>

text \<open>
  C9. When the 16-byte key of the label is already in the cache, \<open>Shuffle\<close> (and
  \<open>Matrix\<close>) returns the stored value and the generator unchanged; in particular a
  second call after a call that returned does so. The result does not mention the cipher
  or the external generator: the second call holds for any \<open>E'\<close> and any generator, also
  ones that would panic or never return, so no stream is derived.
\<close>

theorem cache_hit_unchanged:
  "(encodingCache rs (copy16 label) = Some sh \<longrightarrow>
      Shuffle E GenerateShuffle rs label = Some (Inr (sh, rs))) \<and>
   (matrixCache rs (copy16 label) = Some m \<longrightarrow>
      Matrix E GenerateRandom rs label msize = Some (Inr (m, rs))) \<and>
   (Shuffle E GenerateShuffle rs label = Some (Inr (sh, rs')) \<longrightarrow>
      Shuffle E' GenerateShuffle' rs' label = Some (Inr (sh, rs'))) \<and>
   (Matrix E GenerateRandom rs label msize = Some (Inr (m, rs')) \<longrightarrow>
      Matrix E' GenerateRandom' rs' label msize' = Some (Inr (m, rs')))"
proof (intro conjI impI)
  assume "encodingCache rs (copy16 label) = Some sh"
  then show "Shuffle E GenerateShuffle rs label = Some (Inr (sh, rs))"
    by (rule Shuffle_hit)
next
  assume "matrixCache rs (copy16 label) = Some m"
  then show "Matrix E GenerateRandom rs label msize = Some (Inr (m, rs))"
    by (rule Matrix_hit)
next
  assume "Shuffle E GenerateShuffle rs label = Some (Inr (sh, rs'))"
  then have "encodingCache rs' (copy16 label) = Some sh"
    by (rule Shuffle_Inr_cached)
  then show "Shuffle E' GenerateShuffle' rs' label = Some (Inr (sh, rs'))"
    by (rule Shuffle_hit)
next
  assume "Matrix E GenerateRandom rs label msize = Some (Inr (m, rs'))"
  then have "matrixCache rs' (copy16 label) = Some m"
    by (rule Matrix_Inr_cached)
  then show "Matrix E' GenerateRandom' rs' label msize' = Some (Inr (m, rs'))"
    by (rule Matrix_hit)
qed

text \<open>
  The first call derives the stream and stores the value; the second call, made with a
  different cipher and a generator that never returns, still yields the stored value and
  the same state.
\<close>

theorem cache_hit_unchanged_witness:
  "Shuffle id_cipher first16_gen test_rs pi_label =
     Some (Inr (pi_label, test_rs\<lparr>encodingCache := [pi_label \<mapsto> pi_label]\<rparr>)) \<and>
   Shuffle zero_cipher (\<lambda>ks. None) (test_rs\<lparr>encodingCache := [pi_label \<mapsto> pi_label]\<rparr>) pi_label =
     Some (Inr (pi_label, test_rs\<lparr>encodingCache := [pi_label \<mapsto> pi_label]\<rparr>)) \<and>
   Matrix id_cipher firstn_gen test_rs pi_label 3 =
     Some (Inr ([3, 1, 4], test_rs\<lparr>matrixCache := [pi_label \<mapsto> [3, 1, 4]]\<rparr>)) \<and>
   Matrix zero_cipher (\<lambda>ks n. None) (test_rs\<lparr>matrixCache := [pi_label \<mapsto> [3, 1, 4]]\<rparr>) pi_label 8 =
     Some (Inr ([3, 1, 4], test_rs\<lparr>matrixCache := [pi_label \<mapsto> [3, 1, 4]]\<rparr>))"
  using cache_hit_unchanged [where rs = test_rs and label = pi_label and sh = pi_label
      and E = id_cipher and GenerateShuffle = first16_gen
      and rs' = "test_rs\<lparr>encodingCache := [pi_label \<mapsto> pi_label]\<rparr>"
      and E' = zero_cipher and GenerateShuffle' = "\<lambda>ks. None"]
    cache_hit_unchanged [where rs = test_rs and label = pi_label and m = "[3, 1, 4]"
      and E = id_cipher and GenerateRandom = firstn_gen and msize = 3
      and rs' = "test_rs\<lparr>matrixCache := [pi_label \<mapsto> [3, 1, 4]]\<rparr>"
      and E' = zero_cipher and GenerateRandom' = "\<lambda>ks n. None" and msize' = 8]
    Shuffle_test Matrix_test
  by simp

section \<open>C10: the unguarded division of the scaling step\<close>

text \<open>
  C10. One round of the sampler over \<open>n > 0\<close> bytes (an allocatable \<open>n\<close>) panics with a
  division by zero exactly when all \<open>n\<close> bytes it draws are zero, and it has no other way
  to panic; so the division is safe exactly when some drawn byte is not zero. The
  sampler does not redraw: with a positive length, a nonzero target and a stream whose
  first \<open>length\<close> bytes are zero, \<open>Dirichlet\<close> panics with a division by zero.
\<close>

theorem guess_divide_by_zero:
  "(0 < n \<and> 8 * int n \<le> maxAlloc \<longrightarrow>
      (guess ks pos n tsum = Inl DivideByZero \<longleftrightarrow> (\<forall>i<n. ks (pos + i) = 0))) \<and>
   (guess ks pos n tsum = Inl p \<longrightarrow> p = DivideByZero \<and> 0 < n) \<and>
   (0 < sint len \<and> 8 * sint len \<le> maxAlloc \<and> tsum \<noteq> 0 \<and> Stream E rs label = Inr ks' \<and>
      (\<forall>i<nat (sint len). ks' i = 0) \<longrightarrow>
      Dirichlet E rs label len tsum = Some (Inl DivideByZero))"
proof (intro conjI impI)
  assume "0 < n \<and> 8 * int n \<le> maxAlloc"
  then have "0 < n" "int n \<le> 2 ^ 45" by (simp_all add: maxAlloc_def)
  then show "guess ks pos n tsum = Inl DivideByZero \<longleftrightarrow> (\<forall>i<n. ks (pos + i) = 0)"
    by (rule guess_DivideByZero_iff)
next
  assume "guess ks pos n tsum = Inl p"
  then show "p = DivideByZero" and "0 < n" by (rule guess_Inl)+
next
  assume "0 < sint len \<and> 8 * sint len \<le> maxAlloc \<and> tsum \<noteq> 0 \<and> Stream E rs label = Inr ks' \<and>
      (\<forall>i<nat (sint len). ks' i = 0)"
  then show "Dirichlet E rs label len tsum = Some (Inl DivideByZero)"
    using Dirichlet_first_draw_zero [of len tsum E rs label ks'] by blast
qed

text \<open>
  With the label of sixteen zero bytes and the identity as block function the keystream
  starts with sixteen zero bytes: the round and the sampler panic. On the keystream
  \<open>3, 1, 4, 1, \<dots>\<close> the round returns.
\<close>

theorem guess_divide_by_zero_witness:
  "guess (ctr_keystream id_cipher [116, 101, 115, 116, 0, 0, 0, 0, 0, 0, 0, 0, 0, 0, 0, 0] 0) 0 3 7 =
     Inl DivideByZero \<and>
   guess (ctr_keystream id_cipher [119, 100, 119, 117, 5, 9, 2, 6, 5, 3, 5, 8, 9, 7, 9, 3]
            (be_word pi_label)) 0 4 10 \<noteq> Inl DivideByZero \<and>
   Dirichlet id_cipher test_rs zero_label 3 7 = Some (Inl DivideByZero)"
proof -
  let ?z = "ctr_keystream id_cipher [116, 101, 115, 116, 0, 0, 0, 0, 0, 0, 0, 0, 0, 0, 0, 0] 0"
  let ?k = "ctr_keystream id_cipher [119, 100, 119, 117, 5, 9, 2, 6, 5, 3, 5, 8, 9, 7, 9, 3] (be_word pi_label)"
  have "map ?k [0..<16] ! 0 = pi_label ! 0" by (simp only: ks_test)
  then have k0: "?k 0 = 3" by (simp add: pi_label_def)
  have nz: "\<not> (\<forall>i<4. ?k (0 + i) = 0)"
  proof
    assume "\<forall>i<4. ?k (0 + i) = 0"
    then have "(0 :: nat) < 4 \<longrightarrow> ?k (0 + 0) = 0" by (rule spec)
    with k0 show False by simp
  qed
  have z: "\<forall>i<3. ?z i = 0"
    by (simp add: zero_label_keystream)
  have s3: "sint (3 :: goint) = 3" by simp
  from guess_divide_by_zero [where n = 3 and ks = ?z and pos = 0 and tsum = 7
      and len = 3 and E = id_cipher and rs = test_rs and label = zero_label and ks' = ?z]
    guess_divide_by_zero [where n = 4 and ks = ?k and pos = 0 and tsum = 10
      and len = 3 and E = id_cipher and rs = test_rs and label = zero_label and ks' = ?z]
    nz z Stream_zero_label_test
  show ?thesis by (simp add: maxAlloc_def s3)
qed

section \<open>The rejection loop need not end\<close>

text \<open>
  On a keystream of bytes \<open>2\<close> only, two variables and the target 3: each draw has the
  candidate sum 4, both shares \<open>2 * 3 / 4\<close> are rounded up to 2, the total 4 differs from
  the target, and the next draw is the same. The sampler never returns.
\<close>

theorem Dirichlet_never_returns:
  "Dirichlet two_cipher test_rs pi_label 2 3 = None"
proof -
  have "valid_seed test_rs \<and> length (Name test_rs) \<le> 16 \<and> length pi_label = 16"
    by (simp add: valid_seed_def test_rs_sel pi_label_def)
  then obtain ks where ks: "Stream two_cipher test_rs pi_label = Inr ks"
    using Stream_Inr_iff [of two_cipher test_rs pi_label] by blast
  from Stream_Inr_keystream [OF ks] obtain sk where
    k: "ks = ctr_keystream two_cipher sk (be_word pi_label)" by blast
  have "always_rejects ks 2 3 0"
    by (simp add: always_rejects_def k guess_two)
  then have l: "dirichlet_loop ks 2 3 0 (replicate 2 0) 0 = None"
    by (rule dirichlet_loop_None)
  have m: "make_len 8 (2 :: goint) = Inr 2"
    by (simp add: make_len_def maxAlloc_def)
  show ?thesis
    unfolding Dirichlet_def by (simp add: m ks l)
qed

end
